theory Spec2Isabelle
  imports Main "HOL-Library.Word" "HOL-Library.AList"
begin

unbundle bit_operations_syntax

section \<open>Data model\<close>

text \<open>
  A Python \<open>bytes\<close> value is a list of 8-bit words; Python integers are unbounded and
  are modelled as \<open>int\<close>. The exceptions that the modelled code can raise are values of
  \<open>error\<close>: \<open>bytes([n])\<close> raises \<open>ValueError\<close> when \<open>n\<close> is outside 0..255, a dictionary
  lookup of an absent key raises \<open>KeyError\<close>, and \<open>struct.pack\<close> raises its own error
  when an argument does not fit the format.
\<close>

type_synonym byte = "8 word"

datatype error = ValueError | KeyError | StructError

text \<open>
  One UDP datagram: the destination address and port given to \<open>sock.sendto\<close>, and the
  message. The network is the list of datagrams handed to the transport, oldest first.
\<close>

type_synonym datagram = "(string \<times> int) \<times> byte list"

text \<open>
  A computation that may raise: \<open>Inl (e, s)\<close> is the exception \<open>e\<close> raised in state \<open>s\<close>
  (what had been done before the raise is kept), \<open>Inr s\<close> is normal completion.
\<close>

type_synonym 's result = "(error \<times> 's) + 's"

definition and_then :: "'s result \<Rightarrow> ('s \<Rightarrow> 's result) \<Rightarrow> 's result" where
  "and_then r f = (case r of Inl e \<Rightarrow> Inl e | Inr s \<Rightarrow> f s)"

section \<open>Frame codec\<close>

text \<open>
  \<open>bytes(xs)\<close> for a list of integers \<open>xs\<close>: the bytes object with these values, or
  \<open>ValueError\<close> when one of them is outside 0..255.
\<close>

fun bytes :: "int list \<Rightarrow> error + byte list" where
  "bytes [] = Inr []"
| "bytes (n # ns) =
     (if 0 \<le> n \<and> n \<le> 255 then
        (case bytes ns of Inl e \<Rightarrow> Inl e | Inr bs \<Rightarrow> Inr (word_of_int n # bs))
      else Inl ValueError)"

text \<open>
  \<open>str.encode('utf-8')\<close> on strings of code points below 256 (the characters of HOL's
  \<open>char\<close>): one byte below 128, two bytes from 128 on.
\<close>

definition utf8_char :: "char \<Rightarrow> byte list" where
  "utf8_char c =
     (let n = (of_char c :: nat) in
      if n < 128 then [of_nat n]
      else [of_nat (192 + n div 64), of_nat (128 + n mod 64)])"

definition encode_utf8 :: "string \<Rightarrow> byte list" where
  "encode_utf8 s = concat (map utf8_char s)"

text \<open>
  \<open>send_msp_message(ip, port, direction, cmd, values)\<close>. The checksum is accumulated on
  Python integers, iterating the payload bytes as integers; the three \<open>bytes([..])\<close>
  conversions are evaluated left to right while the message is concatenated, before the
  socket is touched, so a raise leaves the network unchanged. The socket is opened and
  closed inside the call; the send is modelled as appending the datagram to the network.
\<close>

definition send_msp_message ::
  "string \<Rightarrow> int \<Rightarrow> string \<Rightarrow> int \<Rightarrow> byte list \<Rightarrow> datagram list \<Rightarrow> datagram list result" where
  "send_msp_message ip port direction cmd values net =
     (let payload = values;
          header = encode_utf8 (''$M'' @ direction);
          size = int (length payload);
          checksum = fold (\<lambda>byte checksum. checksum XOR uint byte) payload (size XOR cmd)
      in case bytes [size] of Inl e \<Rightarrow> Inl (e, net) | Inr bsize \<Rightarrow>
         (case bytes [cmd] of Inl e \<Rightarrow> Inl (e, net) | Inr bcmd \<Rightarrow>
         (case bytes [checksum] of Inl e \<Rightarrow> Inl (e, net) | Inr bsum \<Rightarrow>
            Inr (net @ [((ip, port), header @ bsize @ bcmd @ payload @ bsum)]))))"

text \<open>
  \<open>struct.pack("<nH", *values)\<close> with \<open>n = len(values)\<close>: every value as an unsigned
  16-bit integer, low byte first; a value outside 0..65535 raises.
\<close>

fun struct_pack_H :: "int list \<Rightarrow> error + byte list" where
  "struct_pack_H [] = Inr []"
| "struct_pack_H (v # vs) =
     (if 0 \<le> v \<and> v \<le> 65535 then
        (case struct_pack_H vs of
           Inl e \<Rightarrow> Inl e
         | Inr bs \<Rightarrow> Inr (word_of_int (v mod 256) # word_of_int (v div 256) # bs))
      else Inl StructError)"

text \<open>
  A call \<open>send_msp_message(ip, port, direction, cmd, <expr>)\<close> whose payload argument is an
  expression that may itself raise (\<open>bytes(subcommand)\<close>, \<open>struct.pack(..)\<close>): the argument
  is evaluated first.
\<close>

definition send_arg ::
  "string \<Rightarrow> int \<Rightarrow> string \<Rightarrow> int \<Rightarrow> error + byte list \<Rightarrow> datagram list \<Rightarrow> datagram list result" where
  "send_arg ip port direction cmd arg net =
     (case arg of Inl e \<Rightarrow> Inl (e, net) | Inr payload \<Rightarrow> send_msp_message ip port direction cmd payload net)"

text \<open>\<open>for _ in range(n): body\<close>, stopping at the first raise.\<close>

fun repeat :: "nat \<Rightarrow> ('s \<Rightarrow> 's result) \<Rightarrow> 's \<Rightarrow> 's result" where
  "repeat 0 body s = Inr s"
| "repeat (Suc n) body s = and_then (body s) (repeat n body)"

text \<open>
  \<open>send_initial_setup(target_ip, target_port)\<close>. The one-element list \<open>subcommand\<close> is
  overwritten before each send; each send is written here with the value it then holds.
\<close>

definition send_initial_setup :: "string \<Rightarrow> int \<Rightarrow> datagram list \<Rightarrow> datagram list result" where
  "send_initial_setup target_ip target_port net =
     and_then
       (repeat 100
          (\<lambda>net. and_then (send_arg target_ip target_port ''>'' 182 (bytes [2]) net)
                           (send_arg target_ip target_port ''>'' 182 (bytes [4])))
          net)
       (send_arg target_ip target_port ''>'' 101 (bytes [0]))"

text \<open>
  The receiver's side, following the specification's words: the XOR-fold of a sequence of
  bytes, and the reading of a byte sequence as little-endian unsigned 16-bit values.
\<close>

definition xor_fold :: "byte list \<Rightarrow> byte" where
  "xor_fold bs = foldl (XOR) 0 bs"

fun unpack_H :: "byte list \<Rightarrow> int list" where
  "unpack_H (lo # hi # bs) = (uint lo + 256 * uint hi) # unpack_H bs"
| "unpack_H _ = []"

section \<open>Pin reader\<close>

text \<open>
  \<open>GPIOReader\<close>. A chip handle is a number; \<open>pin_mappings\<close> is the dictionary from pin
  number to the chip opened for it (the line object requested for a pin is that pin's own
  line, and its level at a poll is the sample the platform gives for the pin). The set of
  chip handles that are open is part of the world.
\<close>

type_synonym chip = nat

record GPIOReader =
  pin_numbers :: "int list"
  pin_mappings :: "(int \<times> chip) list"

text \<open>
  \<open>__init__\<close> stores the pin numbers and runs \<open>_setup_gpio\<close>, which asks the platform for
  the chip and line of every pin; the dictionary it fills in is taken as given.
\<close>

definition GPIOReader_init :: "int list \<Rightarrow> (int \<times> chip) list \<Rightarrow> GPIOReader" where
  "GPIOReader_init pins mappings = \<lparr>pin_numbers = pins, pin_mappings = mappings\<rparr>"

text \<open>
  \<open>read_all\<close>: one sample per pin of \<open>pin_numbers\<close>, in that order, stored in a fresh
  dictionary; \<open>self.pin_mappings[pin]\<close> raises \<open>KeyError\<close> for a pin that was not set up.
\<close>

fun read_all_from ::
  "(int \<times> chip) list \<Rightarrow> (int \<Rightarrow> int) \<Rightarrow> int list \<Rightarrow> (int \<times> int) list \<Rightarrow> error + (int \<times> int) list" where
  "read_all_from pm get_value [] values = Inr values"
| "read_all_from pm get_value (pin # pins) values =
     (case map_of pm pin of
        None \<Rightarrow> Inl KeyError
      | Some line \<Rightarrow> read_all_from pm get_value pins (AList.update pin (get_value pin) values))"

definition read_all :: "GPIOReader \<Rightarrow> (int \<Rightarrow> int) \<Rightarrow> error + (int \<times> int) list" where
  "read_all self get_value = read_all_from (pin_mappings self) get_value (pin_numbers self) []"

text \<open>\<open>cleanup\<close>: close every chip of the dictionary, then clear it.\<close>

definition cleanup :: "GPIOReader \<times> chip set \<Rightarrow> GPIOReader \<times> chip set" where
  "cleanup w =
     (case w of (self, open_chips) \<Rightarrow>
        (self\<lparr>pin_mappings := []\<rparr>,
         fold (\<lambda>entry open_chips. open_chips - {snd entry}) (pin_mappings self) open_chips))"

section \<open>Command table and sequencer\<close>

definition target_ip :: string where "target_ip = ''127.0.0.1''"
definition target_port :: int where "target_port = 14551"
definition cmd :: int where "cmd = 105"

definition key_mapping :: "(string \<times> int list) list" where
  "key_mapping =
     [(''w'', [1500, 2000, 1500, 1500]),
      (''a'', [2000, 1500, 1500, 1500]),
      (''s'', [1500, 1000, 1500, 1500]),
      (''d'', [2000, 1500, 1500, 1500]),
      (''m'', [2000, 1000, 1000, 1000]),
      (''x'', [1500, 1500, 1000, 1500]),
      (''0'', [1500, 1500, 1500, 1500])]"

definition gpio_mapping :: "(int \<times> string) list" where
  "gpio_mapping =
     [(16, ''w''), (13, ''a''), (18, ''s''), (11, ''d''), (32, ''m''), (38, ''x'')]"

text \<open>
  The variables of \<open>main\<close> that the loop reads and writes, and the network. Console
  output is not modelled. \<open>first_input\<close> is assigned at the top of every iteration of the
  loop before it is read, so the value it has in the initial state is never used.
\<close>

record main_state =
  vals :: "int list"
  initialized :: bool
  first_input :: bool
  last_gpio_states :: "(int \<times> int) list"
  network :: "datagram list"

definition on_network :: "(datagram list \<Rightarrow> datagram list result) \<Rightarrow> main_state \<Rightarrow> main_state result" where
  "on_network f st =
     (case f (network st) of
        Inl (e, net) \<Rightarrow> Inl (e, st\<lparr>network := net\<rparr>)
      | Inr net \<Rightarrow> Inr (st\<lparr>network := net\<rparr>))"

text \<open>
  \<open>values[:4] = key_mapping[key]; values[4:] = [1500] * 12\<close> (slice assignment replaces
  the slice by the whole right-hand side).
\<close>

definition set_values :: "string \<Rightarrow> main_state \<Rightarrow> main_state result" where
  "set_values key st =
     (case map_of key_mapping key of
        None \<Rightarrow> Inl (KeyError, st)
      | Some v \<Rightarrow>
          (let st1 = st\<lparr>vals := v @ drop 4 (vals st)\<rparr>
           in Inr (st1\<lparr>vals := take 4 (vals st1) @ replicate 12 1500\<rparr>)))"

text \<open>
  The five sends that both branches of the loop perform (lines 173 to 189 for a pin, 209
  to 223 for a line of input; the statements are the same): marker 0, marker 2, the
  control vector, the reset of the sticks with the neutral vector, marker 4.
\<close>

definition send_commands :: "main_state \<Rightarrow> main_state result" where
  "send_commands st =
     and_then (on_network (send_arg target_ip target_port ''>'' 182 (bytes [0])) st) (\<lambda>st.
     and_then (on_network (send_arg target_ip target_port ''>'' 182 (bytes [2])) st) (\<lambda>st.
     and_then (on_network (send_arg target_ip target_port ''<'' cmd (struct_pack_H (vals st))) st) (\<lambda>st.
     and_then (set_values ''0'' st) (\<lambda>st.
     and_then (on_network (send_arg target_ip target_port ''<'' cmd (struct_pack_H (vals st))) st) (\<lambda>st.
     on_network (send_arg target_ip target_port ''>'' 182 (bytes [4])) st)))))"

text \<open>
  The body of \<open>for pin, state in gpio_states.items()\<close> (lines 155 to 189). The \<open>and\<close> of
  the condition looks \<open>last_gpio_states\<close> up only when \<open>state == 1\<close>.
\<close>

definition pin_event :: "int \<times> int \<Rightarrow> main_state \<Rightarrow> main_state result" where
  "pin_event item st =
     (case item of (pin, state) \<Rightarrow>
        if state = 1 then
          (case map_of (last_gpio_states st) pin of
             None \<Rightarrow> Inl (KeyError, st)
           | Some last_state \<Rightarrow>
               if last_state = 0 then
                 (let st1 = (if \<not> initialized st then st\<lparr>first_input := True\<rparr> else st)
                  in case map_of gpio_mapping pin of
                       None \<Rightarrow> Inl (KeyError, st1)
                     | Some key \<Rightarrow>
                         and_then (set_values key st1) (\<lambda>st.
                         and_then
                           (if first_input st then
                              and_then (on_network (send_initial_setup target_ip target_port) st)
                                (\<lambda>st. Inr (st\<lparr>initialized := True\<rparr>))
                            else Inr st)
                           send_commands))
               else Inr st)
        else Inr st)"

text \<open>The branch \<open>if user_input in key_mapping\<close> (lines 200 to 223).\<close>

definition key_event :: "string \<Rightarrow> main_state \<Rightarrow> main_state result" where
  "key_event user_input st =
     and_then
       (if \<not> initialized st then
          and_then (on_network (send_initial_setup target_ip target_port) st)
            (\<lambda>st. Inr (st\<lparr>initialized := True\<rparr>))
        else Inr st)
       (\<lambda>st. and_then (set_values user_input st) send_commands)"

text \<open>\<open>for x in xs: body\<close>, stopping at the first raise.\<close>

fun for_each :: "('a \<Rightarrow> 's \<Rightarrow> 's result) \<Rightarrow> 'a list \<Rightarrow> 's \<Rightarrow> 's result" where
  "for_each body [] s = Inr s"
| "for_each body (x # xs) s = and_then (body x s) (for_each body xs)"

text \<open>
  The \<open>while True\<close> loop, run on the inputs of finitely many polls. A poll gives the level
  of every pin (what \<open>line.get_value()\<close> returns for it) and the value returned by
  \<open>non_blocking_input()\<close> (the stripped line, or the empty string when none is ready).
  \<open>Running\<close>: the polls given are used up and the loop is still going; \<open>Exited\<close>: it
  left through \<open>break\<close>; \<open>Failed e\<close>: an exception left it. A keyboard interrupt, which
  can arrive at any moment, and a failure of the transport are outside the model.
\<close>

type_synonym tick = "(int \<Rightarrow> int) \<times> string"

datatype outcome = Running | Exited | Failed error

fun main_loop :: "GPIOReader \<Rightarrow> tick list \<Rightarrow> main_state \<Rightarrow> outcome \<times> main_state" where
  "main_loop gpio [] st = (Running, st)"
| "main_loop gpio (t # ticks) st =
     (case read_all gpio (fst t) of
        Inl e \<Rightarrow> (Failed e, st)
      | Inr gpio_states \<Rightarrow>
          (case for_each pin_event gpio_states (st\<lparr>first_input := False\<rparr>) of
             Inl (e, st') \<Rightarrow> (Failed e, st')
           | Inr st1 \<Rightarrow>
               (let st2 = st1\<lparr>last_gpio_states := gpio_states\<rparr>;
                    user_input = snd t
                in if user_input = ''q'' then (Exited, st2)
                   else if map_of key_mapping user_input \<noteq> None then
                     (case key_event user_input st2 of
                        Inl (e, st') \<Rightarrow> (Failed e, st')
                      | Inr st3 \<Rightarrow> main_loop gpio ticks st3)
                   else main_loop gpio ticks st2)))"

text \<open>
  \<open>main\<close>, from the point where \<open>GPIOReader(pin_numbers)\<close> has been constructed: \<open>mappings\<close>
  is the dictionary that the platform's pin discovery filled in, \<open>open_chips\<close> the chips
  open at that moment. Leaving the \<open>with\<close> block, by \<open>break\<close> or by an exception, runs
  \<open>__exit__\<close>, that is \<open>cleanup\<close>; while the loop is still running nothing is released.
\<close>

definition initial_state :: main_state where
  "initial_state =
     \<lparr>vals = replicate 16 1500, initialized = False, first_input = False,
      last_gpio_states = map (\<lambda>pin. (pin, 0)) (map fst gpio_mapping), network = []\<rparr>"

definition main ::
  "(int \<times> chip) list \<Rightarrow> chip set \<Rightarrow> tick list \<Rightarrow> outcome \<times> main_state \<times> GPIOReader \<times> chip set" where
  "main mappings open_chips ticks =
     (let pin_numbers = map fst gpio_mapping;
          gpio = GPIOReader_init pin_numbers mappings
      in case main_loop gpio ticks initial_state of
           (Running, st) \<Rightarrow> (Running, st, gpio, open_chips)
         | (out, st) \<Rightarrow> (out, st, cleanup (gpio, open_chips)))"

section \<open>The wire format and the bursts, as the specification words them\<close>

text \<open>
  The frame layout: the two-byte tag \<open>$M\<close>, the direction, the size, the command id, the
  payload and the checksum, which is the XOR-fold of size, command id and payload bytes.
\<close>

definition ascii :: "char \<Rightarrow> byte" where
  "ascii c = of_nat (of_char c)"

definition msp_frame :: "char \<Rightarrow> byte \<Rightarrow> byte list \<Rightarrow> byte list" where
  "msp_frame direction command_id payload =
     [ascii CHR ''$'', ascii CHR ''M'', ascii direction, of_nat (length payload), command_id]
     @ payload
     @ [xor_fold (of_nat (length payload) # command_id # payload)]"

text \<open>What a receiver reads back from a frame.\<close>

definition frame_direction :: "byte list \<Rightarrow> byte" where
  "frame_direction f = f ! 2"

definition frame_command :: "byte list \<Rightarrow> byte" where
  "frame_command f = f ! 4"

definition frame_payload :: "byte list \<Rightarrow> byte list" where
  "frame_payload f = take (unat (f ! 3)) (drop 5 f)"

text \<open>Little-endian packing of 16-bit values, and the 16-channel control vector.\<close>

definition le16 :: "int list \<Rightarrow> byte list" where
  "le16 vs = concat (map (\<lambda>v. [word_of_int (v mod 256), word_of_int (v div 256)]) vs)"

definition control_vector :: "int list \<Rightarrow> int list" where
  "control_vector v = v @ replicate 12 1500"

definition neutral :: "int list" where
  "neutral = replicate 16 1500"

definition to_target :: "byte list \<Rightarrow> datagram" where
  "to_target f = ((target_ip, target_port), f)"

definition marker :: "byte \<Rightarrow> datagram" where
  "marker b = to_target (msp_frame CHR ''>'' 182 [b])"

definition init_burst :: "datagram list" where
  "init_burst =
     concat (replicate 100 [marker 2, marker 4]) @ [to_target (msp_frame CHR ''>'' 101 [0])]"

definition command_burst :: "int list \<Rightarrow> datagram list" where
  "command_burst v =
     [marker 0, marker 2,
      to_target (msp_frame CHR ''<'' 105 (le16 (control_vector v))),
      to_target (msp_frame CHR ''<'' 105 (le16 neutral)),
      marker 4]"

section \<open>The rising-edge rule and the output of one poll, in closed form\<close>

text \<open>
  A successful set-up has an entry for every pin of \<open>gpio_mapping\<close>; the samples of one
  poll are the dictionary from each of these pins to its level.
\<close>

definition all_set_up :: "(int \<times> chip) list \<Rightarrow> bool" where
  "all_set_up mappings = list_all (\<lambda>pin. map_of mappings pin \<noteq> None) (map fst gpio_mapping)"

definition samples :: "(int \<Rightarrow> int) \<Rightarrow> (int \<times> int) list" where
  "samples get_value = map (\<lambda>pin. (pin, get_value pin)) (map fst gpio_mapping)"

text \<open>
  The rising-edge rule of the specification: a pin yields an event on a poll when its
  previous sample was 0 and its current sample is 1.
\<close>

definition pin_fires :: "(int \<times> int) list \<Rightarrow> int \<times> int \<Rightarrow> bool" where
  "pin_fires previous item = (map_of previous (fst item) = Some 0 \<and> snd item = 1)"

definition pin_vector :: "int \<Rightarrow> int list" where
  "pin_vector pin =
     (case map_of gpio_mapping pin of
        None \<Rightarrow> []
      | Some key \<Rightarrow> (case map_of key_mapping key of None \<Rightarrow> [] | Some v \<Rightarrow> v))"

text \<open>
  The datagrams of the pin part of one poll: for every pin that fires, in the order of the
  samples, the command burst of its key, preceded by the initialization burst when
  \<open>with_init\<close> holds.
\<close>

definition pin_frames :: "bool \<Rightarrow> (int \<times> int) list \<Rightarrow> (int \<times> int) list \<Rightarrow> datagram list" where
  "pin_frames with_init previous items =
     concat (map (\<lambda>item. if pin_fires previous item
                          then (if with_init then init_burst else []) @ command_burst (pin_vector (fst item))
                          else [])
                 items)"

text \<open>
  The state after the pin part of one poll, and after one whole poll that does not read
  \<open>q\<close> (a line that is not in the command table, \<open>q\<close> included, sends nothing).
\<close>

definition after_pins :: "(int \<times> int) list \<Rightarrow> main_state \<Rightarrow> main_state" where
  "after_pins items st =
     (if list_ex (pin_fires (last_gpio_states st)) items
      then st\<lparr>vals := neutral,
              first_input := first_input st \<or> \<not> initialized st,
              initialized := True,
              network := network st
                @ pin_frames (first_input st \<or> \<not> initialized st) (last_gpio_states st) items\<rparr>
      else st)"

definition after_line :: "string \<Rightarrow> main_state \<Rightarrow> main_state" where
  "after_line user_input st =
     (case map_of key_mapping user_input of
        None \<Rightarrow> st
      | Some v \<Rightarrow>
          st\<lparr>vals := neutral, initialized := True,
             network := network st @ (if initialized st then [] else init_burst) @ command_burst v\<rparr>)"

definition poll :: "tick \<Rightarrow> main_state \<Rightarrow> main_state" where
  "poll t st =
     after_line (snd t)
       ((after_pins (samples (fst t)) (st\<lparr>first_input := False\<rparr>))
          \<lparr>last_gpio_states := samples (fst t)\<rparr>)"

text \<open>
  The network of a run is empty until the sequencer is initialized, and from then on it
  begins with the initialization burst.
\<close>

definition started_with_init :: "main_state \<Rightarrow> bool" where
  "started_with_init st =
     (if initialized st then \<exists>rest. network st = init_burst @ rest else network st = [])"

text \<open>
  The direction rule: markers (182) and the one-shot frame (101) travel with \<open>>\<close>, control
  vectors (105) with \<open><\<close>, and there is no other command.
\<close>

definition direction_ok :: "datagram \<Rightarrow> bool" where
  "direction_ok d =
     (let f = snd d in
      (frame_command f = 182 \<or> frame_command f = 101) \<and> frame_direction f = ascii CHR ''>''
      \<or> frame_command f = 105 \<and> frame_direction f = ascii CHR ''<'')"

section \<open>The codec produces the wire format\<close>

lemma checksum_fold:
  "0 \<le> c \<Longrightarrow> c < 256 \<Longrightarrow>
   0 \<le> fold (\<lambda>byte checksum. checksum XOR uint byte) (p::byte list) c \<and>
   fold (\<lambda>byte checksum. checksum XOR uint byte) p c < 256 \<and>
   word_of_int (fold (\<lambda>byte checksum. checksum XOR uint byte) p c) = foldl (XOR) (word_of_int c :: byte) p"
proof (induction p arbitrary: c)
  case Nil then show ?case by simp
next
  case (Cons b p)
  have b: "0 \<le> uint b" "uint b < 2 ^ 8" using uint_lt2p [of b] by simp_all
  have "0 \<le> c XOR uint b" using Cons.prems b by simp
  moreover have "c XOR uint b < 2 ^ 8" using Cons.prems b by (intro XOR_upper) simp_all
  ultimately show ?case using Cons.IH [of "c XOR uint b"] by (simp add: of_int_xor_eq)
qed

lemma size_xor_cmd:
  assumes "0 \<le> c" "c \<le> 255" "n \<le> 255"
  shows "0 \<le> int n XOR c" "int n XOR c < 256"
proof -
  show "0 \<le> int n XOR c" using assms by simp
  have "int n XOR c < 2 ^ 8" using assms by (intro XOR_upper) simp_all
  then show "int n XOR c < 256" by simp
qed

lemma utf8_ascii: "of_char d < (128::nat) \<Longrightarrow> utf8_char d = [ascii d]"
  by (simp add: utf8_char_def ascii_def)

lemma send_msp_message_frame:
  assumes "of_char d < (128::nat)" "0 \<le> c" "c \<le> 255" "length p \<le> 255"
  shows "send_msp_message ip port [d] c p net = Inr (net @ [((ip, port), msp_frame d (word_of_int c) p)])"
proof -
  let ?k = "fold (\<lambda>byte checksum. checksum XOR uint byte) p (int (length p) XOR c)"
  have x: "0 \<le> int (length p) XOR c" "int (length p) XOR c < 256"
    using size_xor_cmd [OF assms(2,3,4)] by simp_all
  have k: "0 \<le> ?k" "?k \<le> 255"
    "word_of_int ?k = foldl (XOR) (word_of_int (int (length p) XOR c) :: byte) p"
    using checksum_fold [OF x, of p] by simp_all
  have h: "encode_utf8 (''$M'' @ [d]) = [ascii CHR ''$'', ascii CHR ''M'', ascii d]"
    using assms(1) by (simp add: encode_utf8_def utf8_ascii)
  show ?thesis
    unfolding send_msp_message_def Let_def h
    using assms k by (simp add: msp_frame_def xor_fold_def of_int_xor_eq)
qed

section \<open>What the bursts put on the network\<close>

lemma and_then_Inr [simp]: "and_then (Inr s) f = f s"
  by (simp add: and_then_def)

lemma and_then_Inl [simp]: "and_then (Inl e) f = Inl e"
  by (simp add: and_then_def)

lemma send_marker:
  "send_arg target_ip target_port ''>'' 182 (Inr [b]) net = Inr (net @ [marker b])"
  using send_msp_message_frame [of "CHR ''>''" 182 "[b]" target_ip target_port net]
  by (simp add: send_arg_def marker_def to_target_def)

lemma send_init_frame:
  "send_arg target_ip target_port ''>'' 101 (Inr [0]) net
     = Inr (net @ [to_target (msp_frame CHR ''>'' 101 [0])])"
  using send_msp_message_frame [of "CHR ''>''" 101 "[0]" target_ip target_port net]
  by (simp add: send_arg_def to_target_def)

lemma repeat_appends:
  "(\<And>s. body s = Inr (s @ xs)) \<Longrightarrow> repeat n body s = Inr (s @ concat (replicate n xs))"
  by (induction n arbitrary: s) simp_all

lemma send_initial_setup_eq:
  "send_initial_setup target_ip target_port net = Inr (net @ init_burst)"
proof -
  have "repeat 100
          (\<lambda>net. and_then (send_arg target_ip target_port ''>'' 182 (bytes [2]) net)
                           (send_arg target_ip target_port ''>'' 182 (bytes [4]))) net
        = Inr (net @ concat (replicate 100 [marker 2, marker 4]))"
    by (rule repeat_appends) (simp add: send_marker)
  then show ?thesis
    by (simp add: send_initial_setup_def send_init_frame init_burst_def)
qed

lemma struct_pack_H_le16:
  "\<forall>v \<in> set vs. 0 \<le> v \<and> v \<le> 65535 \<Longrightarrow> struct_pack_H vs = Inr (le16 vs)"
  by (induction vs) (simp_all add: le16_def)

lemma length_le16 [simp]: "length (le16 vs) = 2 * length vs"
  by (induction vs) (simp_all add: le16_def)

lemma send_vector:
  assumes "\<forall>v \<in> set vs. 0 \<le> v \<and> v \<le> 65535" "length vs = 16"
  shows "send_arg target_ip target_port ''<'' cmd (struct_pack_H vs) net
           = Inr (net @ [to_target (msp_frame CHR ''<'' 105 (le16 vs))])"
  using send_msp_message_frame [of "CHR ''<''" 105 "le16 vs" target_ip target_port net] assms
  by (simp add: send_arg_def to_target_def struct_pack_H_le16 cmd_def)

lemma key_mapping_cases:
  "map_of key_mapping key = Some v \<Longrightarrow>
   v \<in> {[1500, 2000, 1500, 1500], [2000, 1500, 1500, 1500], [1500, 1000, 1500, 1500],
         [2000, 1000, 1000, 1000], [1500, 1500, 1000, 1500], [1500, 1500, 1500, 1500]}"
  by (auto simp: key_mapping_def split: if_splits)

lemma key_mapping_range:
  "map_of key_mapping key = Some v \<Longrightarrow> length v = 4 \<and> (\<forall>x \<in> set v. 0 \<le> x \<and> x \<le> 65535)"
  by (drule key_mapping_cases) auto

lemma set_values_eq:
  "map_of key_mapping key = Some v \<Longrightarrow>
   set_values key st = Inr (st\<lparr>vals := control_vector v\<rparr>)"
  by (frule key_mapping_range) (simp add: set_values_def control_vector_def)

lemma set_values_neutral: "set_values ''0'' st = Inr (st\<lparr>vals := neutral\<rparr>)"
proof -
  have "map_of key_mapping ''0'' = Some [1500, 1500, 1500, 1500]" by (simp add: key_mapping_def)
  then show ?thesis by (simp add: set_values_eq control_vector_def neutral_def eval_nat_numeral)
qed

lemma on_network_Inr: "f (network st) = Inr net \<Longrightarrow> on_network f st = Inr (st\<lparr>network := net\<rparr>)"
  by (simp add: on_network_def)

lemma neutral_range: "(\<forall>v \<in> set neutral. 0 \<le> v \<and> v \<le> 65535) \<and> length neutral = 16"
  by (simp add: neutral_def)

lemma send_commands_eq:
  assumes "\<forall>x \<in> set (vals st). 0 \<le> x \<and> x \<le> 65535" "length (vals st) = 16"
  shows "send_commands st
           = Inr (st\<lparr>vals := neutral,
                    network := network st @
                      [marker 0, marker 2, to_target (msp_frame CHR ''<'' 105 (le16 (vals st))),
                       to_target (msp_frame CHR ''<'' 105 (le16 neutral)), marker 4]\<rparr>)"
  using assms neutral_range
  by (simp add: send_commands_def on_network_Inr send_marker send_vector set_values_neutral)

lemma control_vector_range:
  "map_of key_mapping key = Some v \<Longrightarrow>
   (\<forall>x \<in> set (control_vector v). 0 \<le> x \<and> x \<le> 65535) \<and> length (control_vector v) = 16"
  by (frule key_mapping_range) (auto simp: control_vector_def)

lemma key_event_eq:
  assumes "map_of key_mapping key = Some v"
  shows "key_event key st
           = Inr (st\<lparr>vals := neutral, initialized := True,
                    network := network st @ (if initialized st then [] else init_burst)
                                 @ command_burst v\<rparr>)"
  using control_vector_range [OF assms]
  by (cases "initialized st")
     (simp_all add: key_event_def on_network_Inr send_initial_setup_eq set_values_eq [OF assms]
        send_commands_eq command_burst_def)

lemma pin_event_eq:
  assumes "map_of (last_gpio_states st) pin = Some 0" "map_of gpio_mapping pin = Some key"
    "map_of key_mapping key = Some v"
  shows "pin_event (pin, 1) st
           = Inr (st\<lparr>vals := neutral,
                    first_input := first_input st \<or> \<not> initialized st,
                    initialized := True,
                    network := network st
                      @ (if first_input st \<or> \<not> initialized st then init_burst else [])
                      @ command_burst v\<rparr>)"
  using control_vector_range [OF assms(3)] assms(1,2)
  by (cases "initialized st"; cases "first_input st")
     (simp_all add: pin_event_def on_network_Inr send_initial_setup_eq set_values_eq [OF assms(3)]
        send_commands_eq command_burst_def)

section \<open>One pin event and the pin part of a poll\<close>

lemma gpio_keys:
  "map_of gpio_mapping pin = Some key \<Longrightarrow> \<exists>v. map_of key_mapping key = Some v"
  by (auto simp: gpio_mapping_def key_mapping_def split: if_splits)

lemma pin_vector_eq:
  "map_of gpio_mapping pin = Some key \<Longrightarrow> map_of key_mapping key = Some v \<Longrightarrow> pin_vector pin = v"
  by (simp add: pin_vector_def)

lemma read_all_result:
  "read_all (GPIOReader_init (map fst gpio_mapping) mappings) g = Inr r \<Longrightarrow> r = samples g"
  by (simp add: read_all_def GPIOReader_init_def gpio_mapping_def samples_def split: option.splits)

lemma read_all_set_up:
  "all_set_up mappings \<Longrightarrow> read_all (GPIOReader_init (map fst gpio_mapping) mappings) g = Inr (samples g)"
  by (auto simp add: all_set_up_def read_all_def GPIOReader_init_def gpio_mapping_def samples_def)

lemma pin_event_idle:
  "\<not> pin_fires (last_gpio_states st) item \<Longrightarrow> map_of (last_gpio_states st) (fst item) \<noteq> None \<Longrightarrow>
   pin_event item st = Inr st"
  by (cases item) (auto simp: pin_event_def pin_fires_def)

lemma pin_event_fires:
  assumes "pin_fires (last_gpio_states st) item" "map_of gpio_mapping (fst item) \<noteq> None"
  shows "pin_event item st
           = Inr (st\<lparr>vals := neutral,
                    first_input := first_input st \<or> \<not> initialized st,
                    initialized := True,
                    network := network st
                      @ (if first_input st \<or> \<not> initialized st then init_burst else [])
                      @ command_burst (pin_vector (fst item))\<rparr>)"
proof -
  obtain pin state where item: "item = (pin, state)" by (cases item)
  from assms obtain key where key: "map_of gpio_mapping pin = Some key" by (auto simp: item)
  then obtain v where v: "map_of key_mapping key = Some v" using gpio_keys by blast
  have "state = 1" "map_of (last_gpio_states st) pin = Some 0"
    using assms(1) by (simp_all add: pin_fires_def item)
  then show ?thesis
    using pin_event_eq [OF _ key v, of st] by (simp add: item pin_vector_eq [OF key v])
qed

lemma pin_frames_Nil [simp]: "pin_frames b previous [] = []"
  by (simp add: pin_frames_def)

lemma pin_frames_Cons:
  "pin_frames b previous (item # items) =
     (if pin_fires previous item
      then (if b then init_burst else []) @ command_burst (pin_vector (fst item))
      else []) @ pin_frames b previous items"
  by (simp add: pin_frames_def)

lemma pin_frames_none: "\<not> list_ex (pin_fires previous) items \<Longrightarrow> pin_frames b previous items = []"
  by (induction items) (simp_all add: pin_frames_Cons)

lemma for_each_pin_event:
  assumes "\<forall>item \<in> set items. map_of (last_gpio_states st) (fst item) \<noteq> None
                              \<and> map_of gpio_mapping (fst item) \<noteq> None"
  shows "for_each pin_event items st = Inr (after_pins items st)"
  using assms
proof (induction items arbitrary: st)
  case Nil
  then show ?case by (simp add: after_pins_def)
next
  case (Cons item items)
  show ?case
  proof (cases "pin_fires (last_gpio_states st) item")
    case False
    then have "pin_event item st = Inr st" using Cons.prems by (simp add: pin_event_idle)
    moreover have "after_pins (item # items) st = after_pins items st"
      using False by (simp add: after_pins_def pin_frames_Cons)
    ultimately show ?thesis using Cons.IH [of st] Cons.prems by simp
  next
    case True
    define st1 where "st1 = st\<lparr>vals := neutral,
                    first_input := first_input st \<or> \<not> initialized st,
                    initialized := True,
                    network := network st
                      @ (if first_input st \<or> \<not> initialized st then init_burst else [])
                      @ command_burst (pin_vector (fst item))\<rparr>"
    have ev: "pin_event item st = Inr st1"
      using pin_event_fires [OF True] Cons.prems by (simp add: st1_def)
    have same: "last_gpio_states st1 = last_gpio_states st" by (simp add: st1_def)
    have "for_each pin_event items st1 = Inr (after_pins items st1)"
      using Cons.IH [of st1] Cons.prems by (simp add: same)
    moreover have "after_pins items st1 = after_pins (item # items) st"
    proof (cases "list_ex (pin_fires (last_gpio_states st)) items")
      case False
      then show ?thesis using True
        by (simp add: after_pins_def same pin_frames_Cons pin_frames_none) (simp add: st1_def)
    next
      case more: True
      then show ?thesis using True
        by (simp add: after_pins_def same pin_frames_Cons) (simp add: st1_def)
    qed
    ultimately show ?thesis using ev by simp
  qed
qed

lemma samples_keys: "fst ` set (samples g) = fst ` set gpio_mapping"
  by (simp add: samples_def image_image)

lemma key_event_after_line:
  "map_of key_mapping u \<noteq> None \<Longrightarrow> key_event u st = Inr (after_line u st)"
  by (auto simp: after_line_def key_event_eq)

lemma last_after_pins [simp]: "last_gpio_states (after_pins items st) = last_gpio_states st"
  by (simp add: after_pins_def)

lemma last_after_line [simp]: "last_gpio_states (after_line u st) = last_gpio_states st"
  by (simp add: after_line_def split: option.splits)

lemma last_poll [simp]: "last_gpio_states (poll t st) = samples (fst t)"
  by (simp add: poll_def)

lemma main_loop_Cons:
  assumes "read_all (GPIOReader_init (map fst gpio_mapping) mappings) (fst t) = Inr r"
    and "fst ` set gpio_mapping \<subseteq> fst ` set (last_gpio_states st)"
  shows "main_loop (GPIOReader_init (map fst gpio_mapping) mappings) (t # ticks) st =
           (if snd t = ''q'' then (Exited, poll t st)
            else main_loop (GPIOReader_init (map fst gpio_mapping) mappings) ticks (poll t st))"
proof -
  have r: "r = samples (fst t)" using assms(1) by (rule read_all_result)
  have "\<forall>item \<in> set (samples (fst t)).
          map_of (last_gpio_states (st\<lparr>first_input := False\<rparr>)) (fst item) \<noteq> None
          \<and> map_of gpio_mapping (fst item) \<noteq> None"
  proof
    fix item assume "item \<in> set (samples (fst t))"
    then have "fst item \<in> fst ` set gpio_mapping"
      using samples_keys [of "fst t"] by blast
    then show "map_of (last_gpio_states (st\<lparr>first_input := False\<rparr>)) (fst item) \<noteq> None
          \<and> map_of gpio_mapping (fst item) \<noteq> None"
      using assms(2) by (auto simp: map_of_eq_None_iff)
  qed
  then have pins: "for_each pin_event (samples (fst t)) (st\<lparr>first_input := False\<rparr>)
                = Inr (after_pins (samples (fst t)) (st\<lparr>first_input := False\<rparr>))"
    by (rule for_each_pin_event)
  have q: "map_of key_mapping ''q'' = None" by (simp add: key_mapping_def)
  show ?thesis
  proof (cases "snd t = ''q''")
    case True
    then show ?thesis using assms(1) pins q by (simp add: r poll_def after_line_def)
  next
    case False
    show ?thesis
    proof (cases "map_of key_mapping (snd t)")
      case None
      then show ?thesis using assms(1) pins False by (simp add: r poll_def after_line_def)
    next
      case (Some v)
      then show ?thesis using assms(1) pins False
        by (simp add: r poll_def key_event_after_line)
    qed
  qed
qed

section \<open>Runs of the loop\<close>

lemma keys_initial: "fst ` set gpio_mapping \<subseteq> fst ` set (last_gpio_states initial_state)"
  by (simp add: initial_state_def image_image)

lemma keys_poll: "fst ` set gpio_mapping \<subseteq> fst ` set (last_gpio_states (poll t st))"
  by (simp add: samples_keys)

lemma main_loop_polls:
  assumes "all_set_up mappings" "fst ` set gpio_mapping \<subseteq> fst ` set (last_gpio_states st)"
    "\<forall>t \<in> set ticks. snd t \<noteq> ''q''"
  shows "main_loop (GPIOReader_init (map fst gpio_mapping) mappings) ticks st
           = (Running, fold poll ticks st)"
  using assms(2,3)
proof (induction ticks arbitrary: st)
  case Nil
  then show ?case by simp
next
  case (Cons t ticks)
  have "main_loop (GPIOReader_init (map fst gpio_mapping) mappings) (t # ticks) st
          = main_loop (GPIOReader_init (map fst gpio_mapping) mappings) ticks (poll t st)"
    using main_loop_Cons [OF read_all_set_up [OF assms(1)] Cons.prems(1), of t ticks] Cons.prems(2)
    by simp
  then show ?case using Cons.IH [of "poll t st"] Cons.prems(2) keys_poll [of t st] by simp
qed

lemma main_loop_quit:
  assumes "all_set_up mappings" "fst ` set gpio_mapping \<subseteq> fst ` set (last_gpio_states st)"
    "\<forall>t \<in> set ticks. snd t \<noteq> ''q''"
  shows "main_loop (GPIOReader_init (map fst gpio_mapping) mappings) (ticks @ (g, ''q'') # later) st
           = (Exited, poll (g, ''q'') (fold poll ticks st))"
  using assms(2,3)
proof (induction ticks arbitrary: st)
  case Nil
  then show ?case
    using main_loop_Cons [OF read_all_set_up [OF assms(1)] Nil.prems(1), of "(g, ''q'')" later]
    by simp
next
  case (Cons t ticks)
  have "main_loop (GPIOReader_init (map fst gpio_mapping) mappings) ((t # ticks) @ (g, ''q'') # later) st
          = main_loop (GPIOReader_init (map fst gpio_mapping) mappings) (ticks @ (g, ''q'') # later) (poll t st)"
    using main_loop_Cons [OF read_all_set_up [OF assms(1)] Cons.prems(1), of t "ticks @ (g, ''q'') # later"]
      Cons.prems(2)
    by simp
  then show ?case using Cons.IH [of "poll t st"] Cons.prems(2) keys_poll [of t st] by simp
qed

lemma main_loop_prefix:
  assumes "fst ` set gpio_mapping \<subseteq> fst ` set (last_gpio_states st)"
  shows "\<exists>n. snd (main_loop (GPIOReader_init (map fst gpio_mapping) mappings) ticks st)
               = fold poll (take n ticks) st"
  using assms
proof (induction ticks arbitrary: st)
  case Nil
  then show ?case by simp
next
  case (Cons t ticks)
  show ?case
  proof (cases "read_all (GPIOReader_init (map fst gpio_mapping) mappings) (fst t)")
    case (Inl e)
    then have "snd (main_loop (GPIOReader_init (map fst gpio_mapping) mappings) (t # ticks) st)
                 = fold poll (take 0 (t # ticks)) st"
      by simp
    then show ?thesis by blast
  next
    case (Inr r)
    note step = main_loop_Cons [OF Inr Cons.prems, of ticks]
    show ?thesis
    proof (cases "snd t = ''q''")
      case True
      then have "snd (main_loop (GPIOReader_init (map fst gpio_mapping) mappings) (t # ticks) st)
                   = fold poll (take 1 (t # ticks)) st"
        using step by simp
      then show ?thesis by blast
    next
      case False
      obtain n where "snd (main_loop (GPIOReader_init (map fst gpio_mapping) mappings) ticks (poll t st))
                        = fold poll (take n ticks) (poll t st)"
        using Cons.IH [of "poll t st"] keys_poll [of t st] by blast
      then have "snd (main_loop (GPIOReader_init (map fst gpio_mapping) mappings) (t # ticks) st)
                   = fold poll (take (Suc n) (t # ticks)) st"
        using step False by simp
      then show ?thesis by blast
    qed
  qed
qed

lemma main_state_eq:
  "fst (snd (main mappings open_chips ticks))
     = snd (main_loop (GPIOReader_init (map fst gpio_mapping) mappings) ticks initial_state)"
  by (simp add: main_def Let_def split: prod.splits outcome.splits)

lemma fold_poll_induct:
  assumes "P st" "\<And>t st. P st \<Longrightarrow> P (poll t st)"
  shows "P (fold poll ticks st)"
  using assms(1) by (induction ticks arbitrary: st) (simp_all add: assms(2))

lemma main_induct:
  assumes "P initial_state" "\<And>t st. P st \<Longrightarrow> P (poll t st)"
  shows "P (fst (snd (main mappings open_chips ticks)))"
proof -
  obtain n where "fst (snd (main mappings open_chips ticks)) = fold poll (take n ticks) initial_state"
    using main_loop_prefix [OF keys_initial, of mappings ticks] by (auto simp: main_state_eq)
  then show ?thesis using fold_poll_induct [of P initial_state, OF assms] by simp
qed

section \<open>What every run keeps true\<close>

lemma frame_command_msp [simp]: "frame_command (msp_frame d c p) = c"
  by (simp add: frame_command_def msp_frame_def)

lemma frame_direction_msp [simp]: "frame_direction (msp_frame d c p) = ascii d"
  by (simp add: frame_direction_def msp_frame_def)

lemma frame_payload_msp: "length p \<le> 255 \<Longrightarrow> frame_payload (msp_frame d c p) = p"
  by (simp add: frame_payload_def msp_frame_def unat_of_nat)

lemma length_init_burst: "length init_burst = 201"
  by (simp add: init_burst_def length_concat sum_list_replicate)

lemma set_init_burst:
  "set init_burst = {marker 2, marker 4, to_target (msp_frame CHR ''>'' 101 [0])}"
  by (auto simp: init_burst_def)

lemma init_burst_commands:
  "map (\<lambda>d. (frame_command (snd d), frame_payload (snd d))) init_burst
     = concat (replicate 100 [(182, [2]), (182, [4])]) @ [(101, [0])]"
  by (simp add: init_burst_def map_concat marker_def to_target_def frame_payload_msp)

lemma init_burst_no_control: "d \<in> set init_burst \<Longrightarrow> frame_command (snd d) \<noteq> 105"
  by (auto simp: set_init_burst marker_def to_target_def)

lemma pin_frames_init:
  "list_ex (pin_fires previous) items \<Longrightarrow> \<exists>rest. pin_frames True previous items = init_burst @ rest"
  by (induction items) (auto simp: pin_frames_Cons)

lemma after_pins_started:
  assumes "started_with_init st"
  shows "started_with_init (after_pins items st)"
proof (cases "list_ex (pin_fires (last_gpio_states st)) items")
  case False
  then show ?thesis using assms by (simp add: after_pins_def)
next
  case True
  show ?thesis
  proof (cases "initialized st")
    case init: True
    then show ?thesis using assms True
      by (auto simp: after_pins_def started_with_init_def)
  next
    case False
    then have "network st = []" using assms by (simp add: started_with_init_def)
    moreover obtain rest where "pin_frames True (last_gpio_states st) items = init_burst @ rest"
      using pin_frames_init [OF True] by blast
    ultimately show ?thesis using True False
      by (simp add: after_pins_def started_with_init_def)
  qed
qed

lemma after_line_started:
  "started_with_init st \<Longrightarrow> started_with_init (after_line u st)"
  by (auto simp: after_line_def started_with_init_def split: option.splits)

lemma poll_started: "started_with_init st \<Longrightarrow> started_with_init (poll t st)"
proof -
  assume a: "started_with_init st"
  have "started_with_init (st\<lparr>first_input := False\<rparr>)"
    using a by (simp add: started_with_init_def)
  then have "started_with_init (after_pins (samples (fst t)) (st\<lparr>first_input := False\<rparr>))"
    by (rule after_pins_started)
  then have "started_with_init ((after_pins (samples (fst t)) (st\<lparr>first_input := False\<rparr>))
                \<lparr>last_gpio_states := samples (fst t)\<rparr>)"
    by (simp add: started_with_init_def)
  then show ?thesis unfolding poll_def by (rule after_line_started)
qed

lemma main_started: "started_with_init (fst (snd (main mappings open_chips ticks)))"
proof (rule main_induct)
  show "started_with_init initial_state"
    by (simp add: started_with_init_def initial_state_def)
qed (rule poll_started)

lemma main_running:
  assumes "all_set_up mappings" "\<forall>t \<in> set ticks. snd t \<noteq> ''q''"
  shows "main mappings open_chips ticks
           = (Running, fold poll ticks initial_state,
              GPIOReader_init (map fst gpio_mapping) mappings, open_chips)"
  using main_loop_polls [OF assms(1) keys_initial assms(2)]
  by (simp add: main_def)

lemma example_set_up: "all_set_up [(16, 0), (13, 1), (18, 2), (11, 3), (32, 4), (38, 5)]"
  by (simp add: all_set_up_def gpio_mapping_def)

lemma poll_w_initial:
  "poll (\<lambda>pin. 0, ''w'') initial_state
     = initial_state\<lparr>vals := neutral, initialized := True,
          last_gpio_states := samples (\<lambda>pin. 0),
          network := init_burst @ command_burst [1500, 2000, 1500, 1500]\<rparr>"
  by (simp add: poll_def after_pins_def after_line_def samples_def pin_fires_def
      initial_state_def key_mapping_def gpio_mapping_def)

section \<open>Directions, payloads and the examples used below\<close>

lemma init_burst_direction: "d \<in> set init_burst \<Longrightarrow> direction_ok d"
  by (auto simp: set_init_burst marker_def to_target_def direction_ok_def)

lemma command_burst_direction: "d \<in> set (command_burst v) \<Longrightarrow> direction_ok d"
  by (auto simp: command_burst_def marker_def to_target_def direction_ok_def)

lemma pin_frames_direction: "d \<in> set (pin_frames b previous items) \<Longrightarrow> direction_ok d"
  by (induction items)
     (auto simp: pin_frames_Cons init_burst_direction command_burst_direction split: if_splits)

lemma poll_direction:
  assumes "\<forall>d \<in> set (network st). direction_ok d"
  shows "\<forall>d \<in> set (network (poll t st)). direction_ok d"
  using assms
  by (auto simp: poll_def after_line_def after_pins_def
      dest: pin_frames_direction init_burst_direction command_burst_direction
      split: option.splits if_splits)

lemma example_run_w:
  "network (fst (snd (main [(16, 0), (13, 1), (18, 2), (11, 3), (32, 4), (38, 5)] {}
                           [(\<lambda>pin. 0, ''w'')])))
     = init_burst @ command_burst [1500, 2000, 1500, 1500]"
  using main_running [OF example_set_up, of "[(\<lambda>pin. 0, ''w'')]" "{}"]
  by (simp add: poll_w_initial)

lemma unpack_le16:
  "\<forall>v \<in> set vs. 0 \<le> v \<and> v \<le> 65535 \<Longrightarrow> unpack_H (le16 vs) = vs"
proof (induction vs)
  case Nil
  then show ?case by (simp add: le16_def)
next
  case (Cons v vs)
  have v: "0 \<le> v" "v \<le> 65535" using Cons.prems by simp_all
  have "uint (word_of_int (v mod 256) :: byte) = v mod 256"
    by (simp add: uint_word_of_int)
  moreover have "uint (word_of_int (v div 256) :: byte) = v div 256"
    using v by (simp add: uint_word_of_int)
  ultimately have "uint (word_of_int (v mod 256) :: byte) + 256 * uint (word_of_int (v div 256) :: byte) = v"
    by simp
  moreover have "unpack_H (le16 vs) = vs" using Cons by simp
  moreover have "le16 (v # vs) = word_of_int (v mod 256) # word_of_int (v div 256) # le16 vs"
    by (simp add: le16_def)
  ultimately show ?case by simp
qed

lemma length_command_burst [simp]: "length (command_burst v) = 5"
  by (simp add: command_burst_def)

lemma command_burst_third:
  "snd (command_burst v ! Suc (Suc 0)) = msp_frame CHR ''<'' 105 (le16 (control_vector v))"
  "snd (command_burst v ! 2) = msp_frame CHR ''<'' 105 (le16 (control_vector v))"
  by (simp_all add: command_burst_def to_target_def)

lemma w_vector: "map_of key_mapping ''w'' = Some [1500, 2000, 1500, 1500]"
  by (simp add: key_mapping_def)

lemma pin16_w: "map_of gpio_mapping 16 = Some ''w''"
  by (simp add: gpio_mapping_def)

lemma control_vector_w:
  "control_vector [1500, 2000, 1500, 1500] = [1500, 2000, 1500, 1500] @ replicate 12 1500"
  by (simp add: control_vector_def)

lemma w_payload:
  "frame_command (msp_frame CHR ''<'' 105 (le16 (control_vector [1500, 2000, 1500, 1500]))) = 105
   \<and> length (frame_payload (msp_frame CHR ''<'' 105 (le16 (control_vector [1500, 2000, 1500, 1500])))) = 32
   \<and> unpack_H (frame_payload (msp_frame CHR ''<'' 105 (le16 (control_vector [1500, 2000, 1500, 1500]))))
       = [1500, 2000, 1500, 1500] @ replicate 12 1500"
proof -
  have r: "\<forall>x \<in> set (control_vector [1500, 2000, 1500, 1500]). 0 \<le> x \<and> x \<le> 65535"
    "length (control_vector [1500, 2000, 1500, 1500]) = 16"
    using control_vector_range [OF w_vector] by simp_all
  then have "frame_payload (msp_frame CHR ''<'' 105 (le16 (control_vector [1500, 2000, 1500, 1500])))
               = le16 (control_vector [1500, 2000, 1500, 1500])"
    by (simp add: frame_payload_msp)
  then show ?thesis using r unpack_le16 [OF r(1)] by (simp add: control_vector_w)
qed

lemma q_not_key: "map_of key_mapping ''q'' = None"
  by (simp add: key_mapping_def)

lemma empty_not_key: "map_of key_mapping '''' = None"
  by (simp add: key_mapping_def)

lemma network_after_pins:
  "network (after_pins items st)
     = network st @ pin_frames (first_input st \<or> \<not> initialized st) (last_gpio_states st) items"
  by (simp add: after_pins_def pin_frames_none)

lemma initialized_after_pins:
  "initialized (after_pins items st)
     = (initialized st \<or> list_ex (pin_fires (last_gpio_states st)) items)"
  by (simp add: after_pins_def)

lemma poll_no_line:
  "map_of key_mapping u = None \<Longrightarrow>
   network (poll (g, u) st)
     = network st @ pin_frames (\<not> initialized st) (last_gpio_states st) (samples g)
   \<and> initialized (poll (g, u) st)
     = (initialized st \<or> list_ex (pin_fires (last_gpio_states st)) (samples g))"
  by (simp add: poll_def after_line_def network_after_pins initialized_after_pins)

lemma poll_quit_same: "poll (g, ''q'') st = poll (g, '''') st"
  by (simp add: poll_def after_line_def q_not_key empty_not_key)

lemma samples_16:
  "samples g = [(16, g 16), (13, g 13), (18, g 18), (11, g 11), (32, g 32), (38, g 38)]"
  by (simp add: samples_def gpio_mapping_def)

lemma sequence_lengths:
  "map (\<lambda>n. length (network (fold poll
           (take n (map (\<lambda>level. (\<lambda>pin. if pin = 16 then level else 0, ''''))
                        [0, 0, 1, 1, 0, 1]))
           initial_state)))
       [0, 1, 2, 3, 4, 5, 6]
   = [0, 0, 0, 206, 206, 206, 211]"
proof -
  have i: "network initial_state = []" "\<not> initialized initial_state"
    "last_gpio_states initial_state = samples (\<lambda>pin. 0)"
    by (simp_all add: initial_state_def samples_def)
  show ?thesis
    by (simp add: take_Cons' poll_no_line [OF empty_not_key] i samples_16 pin_frames_Cons pin_fires_def
        length_init_burst)
qed

lemma map_of_samples:
  "pin \<in> fst ` set gpio_mapping \<Longrightarrow> map_of (samples g) pin = Some (g pin)"
  by (auto simp: samples_16 gpio_mapping_def)

lemma map_of_initial:
  "pin \<in> fst ` set gpio_mapping \<Longrightarrow> map_of (last_gpio_states initial_state) pin = Some 0"
  by (auto simp: initial_state_def gpio_mapping_def)

lemma last_fold_poll:
  "last_gpio_states (fold poll ticks st)
     = (if ticks = [] then last_gpio_states st else samples (fst (last ticks)))"
  by (induction ticks arbitrary: st) simp_all

lemma previous_sample:
  assumes "pin \<in> fst ` set gpio_mapping"
  shows "map_of (last_gpio_states (fold poll ticks initial_state)) pin
           = Some (if ticks = [] then 0 else fst (last ticks) pin)"
  using assms by (simp add: last_fold_poll map_of_samples map_of_initial)

lemma pin_frames_samples:
  "pin_frames b previous (samples g)
     = concat (map (\<lambda>pin. if pin_fires previous (pin, g pin)
                           then (if b then init_burst else []) @ command_burst (pin_vector pin)
                           else [])
                   (map fst gpio_mapping))"
  by (simp add: pin_frames_def samples_def comp_def cong: if_cong)

lemma poll_idle_initial: "poll (\<lambda>pin. 0, '''') initial_state = initial_state"
  by (simp add: poll_def after_pins_def after_line_def samples_def pin_fires_def initial_state_def
      key_mapping_def gpio_mapping_def)

lemma example_idle_run:
  "fst (snd (main [(16, 0), (13, 1), (18, 2), (11, 3), (32, 4), (38, 5)] {} [(\<lambda>pin. 0, '''')]))
     = initial_state"
  using main_running [OF example_set_up, of "[(\<lambda>pin. 0, '''')]" "{}"]
  by (simp add: poll_idle_initial)

lemma pin_vector_16: "pin_vector 16 = [1500, 2000, 1500, 1500]"
  by (simp add: pin_vector_def gpio_mapping_def key_mapping_def)

lemma cleanup_eq:
  "cleanup (gpio, open_chips) = (gpio\<lparr>pin_mappings := []\<rparr>, open_chips - snd ` set (pin_mappings gpio))"
proof -
  have "fold (\<lambda>entry open_chips. open_chips - {snd entry}) xs s = s - snd ` set xs"
    for xs :: "(int \<times> chip) list" and s :: "chip set"
    by (induction xs arbitrary: s) auto
  then show ?thesis by (simp add: cleanup_def)
qed

lemma a_vector: "map_of key_mapping ''a'' = Some [2000, 1500, 1500, 1500]"
  by (simp add: key_mapping_def)

lemma d_vector: "map_of key_mapping ''d'' = Some [2000, 1500, 1500, 1500]"
  by (simp add: key_mapping_def)

lemma pin13_a: "map_of gpio_mapping 13 = Some ''a''"
  by (simp add: gpio_mapping_def)

lemma pin11_d: "map_of gpio_mapping 11 = Some ''d''"
  by (simp add: gpio_mapping_def)

lemma pin_vector_13: "pin_vector 13 = [2000, 1500, 1500, 1500]"
  by (simp add: pin_vector_def gpio_mapping_def key_mapping_def)

lemma initial_facts:
  "network initial_state = []" "\<not> initialized initial_state" "\<not> first_input initial_state"
  "last_gpio_states initial_state = samples (\<lambda>pin. 0)"
  by (simp_all add: initial_state_def samples_def)

lemma one_init_frame:
  "filter (\<lambda>d. frame_command (snd d) = 101) init_burst = [to_target (msp_frame CHR ''>'' 101 [0])]"
proof -
  have "filter (\<lambda>d. frame_command (snd d) = 101) (concat (replicate 100 [marker 2, marker 4])) = []"
    by (auto simp: filter_empty_conv marker_def to_target_def)
  then show ?thesis by (simp add: init_burst_def to_target_def)
qed

lemma no_init_frame: "filter (\<lambda>d. frame_command (snd d) = 101) (command_burst v) = []"
  by (simp add: command_burst_def marker_def to_target_def)

lemma main_last_poll:
  assumes "all_set_up mappings" "\<forall>t \<in> set ticks. snd t \<noteq> ''q''"
  shows "fst (snd (main mappings open_chips (ticks @ [(g, u)])))
           = poll (g, u) (fold poll ticks initial_state)"
proof (cases "u = ''q''")
  case True
  show ?thesis
    using main_loop_quit [OF assms(1) keys_initial assms(2), of g "[]"]
    by (simp add: main_state_eq True)
next
  case False
  then have "\<forall>t \<in> set (ticks @ [(g, u)]). snd t \<noteq> ''q''" using assms(2) by simp
  then show ?thesis
    using main_running [OF assms(1), of "ticks @ [(g, u)]" open_chips] by simp
qed

lemma network_poll:
  "network (poll (g, u) st)
     = network st
       @ pin_frames (\<not> initialized st) (last_gpio_states st) (samples g)
       @ (case map_of key_mapping u of
            None \<Rightarrow> []
          | Some v \<Rightarrow>
              (if initialized st \<or> list_ex (pin_fires (last_gpio_states st)) (samples g)
               then [] else init_burst) @ command_burst v)"
  by (simp add: poll_def after_line_def network_after_pins initialized_after_pins
      split: option.splits)

lemma list_ex_samples:
  "list_ex (pin_fires previous) (samples g)
     = list_ex (\<lambda>pin. pin_fires previous (pin, g pin)) (map fst gpio_mapping)"
  by (simp add: samples_def list_ex_iff)

section \<open>Claims about the frame codec\<close>

text \<open>
  C1, as amended. For every single-character ASCII direction tag, every command id in
  0..255 and every payload of at most 255 bytes, \<open>send_msp_message\<close> sends exactly one
  datagram: the two tag bytes \<open>$M\<close>, the direction byte, a size byte equal to the payload
  length, the command id byte, the payload, and a checksum byte that is the XOR-fold of
  size, command id and all payload bytes in order; its length is 6 plus the payload
  length. For the empty payload the checksum is the command id itself (not 0, unless
  the command id is 0).
\<close>

theorem send_msp_message_layout:
  assumes "of_char direction < (128::nat)" "0 \<le> command_id" "command_id \<le> 255"
    "length payload \<le> 255"
  shows "\<exists>frame.
           send_msp_message ip port [direction] command_id payload net
             = Inr (net @ [((ip, port), frame)])
         \<and> frame = [0x24, 0x4D, ascii direction, of_nat (length payload), word_of_int command_id]
                     @ payload
                     @ [xor_fold (of_nat (length payload) # word_of_int command_id # payload)]
         \<and> length frame = 6 + length payload
         \<and> (payload = [] \<longrightarrow> last frame = word_of_int command_id)"
  using send_msp_message_frame [OF assms, of ip port net]
  by (simp add: msp_frame_def ascii_def xor_fold_def)

theorem send_msp_message_layout_witness:
  "of_char CHR ''<'' < (128::nat) \<and> (0::int) \<le> 105 \<and> (105::int) \<le> 255
   \<and> length [1, 2, 3 :: byte] \<le> 255
   \<and> send_msp_message ''127.0.0.1'' 14551 ''<'' 105 [1, 2, 3] []
       = Inr [((''127.0.0.1'', 14551), [36, 77, 60, 3, 105, 1, 2, 3, 106])]"
  using send_msp_message_layout [of "CHR ''<''" 105 "[1, 2, 3]" "''127.0.0.1''" 14551 "[]"]
  by (simp add: ascii_def xor_fold_def)

text \<open>
  C1 as worded gives the checksum 0 for an empty payload. The one-shot command 101 sent
  with an empty payload carries the checksum 101.
\<close>

theorem empty_payload_checksum_counterexample:
  "send_msp_message ''127.0.0.1'' 14551 ''>'' 101 [] []
     = Inr [((''127.0.0.1'', 14551), [36, 77, 62, 0, 101, 101])]
   \<and> last [36, 77, 62, 0, 101, 101 :: byte] \<noteq> 0"
  by (simp add: send_msp_message_def encode_utf8_def utf8_char_def)

section \<open>Claims about the initialization burst\<close>

text \<open>
  C4. \<open>send_initial_setup\<close> sends exactly the initialization burst: 100 times the pair
  (command 182 with payload [2], command 182 with payload [4]), then one frame of command
  101 with payload [0]. In every run, whatever the set-up and the polls, a frame of command
  105 is only ever at a position from 201 on, and the 201 datagrams sent before it are
  this burst, in order.
\<close>

theorem init_burst_before_control:
  "send_initial_setup target_ip target_port net = Inr (net @ init_burst)
   \<and> map (\<lambda>d. (frame_command (snd d), frame_payload (snd d))) init_burst
       = concat (replicate 100 [(182, [2]), (182, [4])]) @ [(101, [0])]
   \<and> (\<forall>i < length (network (fst (snd (main mappings open_chips ticks)))).
        frame_command (snd (network (fst (snd (main mappings open_chips ticks))) ! i)) = 105 \<longrightarrow>
        201 \<le> i \<and> take 201 (network (fst (snd (main mappings open_chips ticks)))) = init_burst)"
proof -
  define st where "st = fst (snd (main mappings open_chips ticks))"
  have "201 \<le> i \<and> take 201 (network st) = init_burst"
    if i: "i < length (network st)" and c: "frame_command (snd (network st ! i)) = 105" for i
  proof -
    have "started_with_init st" unfolding st_def by (rule main_started)
    then obtain rest where net: "network st = init_burst @ rest"
      using i by (auto simp: started_with_init_def split: if_splits)
    have "\<not> i < 201"
    proof
      assume "i < 201"
      then have "network st ! i \<in> set init_burst"
        by (simp add: net nth_append length_init_burst)
      then show False using c init_burst_no_control by blast
    qed
    then show ?thesis by (simp add: net length_init_burst)
  qed
  then show ?thesis
    by (simp add: send_initial_setup_eq init_burst_commands st_def)
qed

theorem init_burst_before_control_witness:
  "203 < length (network (fst (snd (main [(16, 0), (13, 1), (18, 2), (11, 3), (32, 4), (38, 5)] {}
                                      [(\<lambda>pin. 0, ''w'')]))))
   \<and> frame_command (snd (network (fst (snd (main [(16, 0), (13, 1), (18, 2), (11, 3), (32, 4), (38, 5)] {}
                                      [(\<lambda>pin. 0, ''w'')]))) ! 203)) = 105
   \<and> take 201 (network (fst (snd (main [(16, 0), (13, 1), (18, 2), (11, 3), (32, 4), (38, 5)] {}
                                      [(\<lambda>pin. 0, ''w'')])))) = init_burst"
proof -
  have run: "network (fst (snd (main [(16, 0), (13, 1), (18, 2), (11, 3), (32, 4), (38, 5)] {}
                                      [(\<lambda>pin. 0, ''w'')])))
               = init_burst @ command_burst [1500, 2000, 1500, 1500]"
    using main_running [OF example_set_up, of "[(\<lambda>pin. 0, ''w'')]" "{}"]
    by (simp add: poll_w_initial)
  have len: "203 < length (init_burst @ command_burst [1500, 2000, 1500, 1500])"
    by (simp add: length_init_burst command_burst_def)
  have c: "frame_command (snd ((init_burst @ command_burst [1500, 2000, 1500, 1500]) ! 203)) = 105"
    by (simp add: nth_append length_init_burst command_burst_def to_target_def)
  show ?thesis
    using init_burst_before_control [of "[]" "[(16, 0), (13, 1), (18, 2), (11, 3), (32, 4), (38, 5)]" "{}"
        "[(\<lambda>pin. 0, ''w'')]"] len c
    unfolding run by blast
qed

text \<open>
  C3, at an input where the code departs from it. On the first poll the pins 16 and 13
  both rise. \<open>first_input\<close> is set by the event of pin 16 and is still set when the event
  of pin 13 is handled, so \<open>send_initial_setup\<close> runs a second time: the network of this
  run holds the initialization burst twice, and two frames of command 101.
\<close>

theorem init_burst_sent_twice:
  "network (fst (snd (main [(16, 0), (13, 1), (18, 2), (11, 3), (32, 4), (38, 5)] {}
                   [(\<lambda>pin. if pin = 16 \<or> pin = 13 then 1 else 0, '''')])))
     = init_burst @ command_burst [1500, 2000, 1500, 1500]
       @ init_burst @ command_burst [2000, 1500, 1500, 1500]
   \<and> length (filter (\<lambda>d. frame_command (snd d) = 101)
        (network (fst (snd (main [(16, 0), (13, 1), (18, 2), (11, 3), (32, 4), (38, 5)] {}
                   [(\<lambda>pin. if pin = 16 \<or> pin = 13 then 1 else 0, '''')]))))) = 2"
proof -
  have "network (fst (snd (main [(16, 0), (13, 1), (18, 2), (11, 3), (32, 4), (38, 5)] {}
                   [(\<lambda>pin. if pin = 16 \<or> pin = 13 then 1 else 0, '''')])))
     = init_burst @ command_burst [1500, 2000, 1500, 1500]
       @ init_burst @ command_burst [2000, 1500, 1500, 1500]"
    using main_running [OF example_set_up,
        of "[(\<lambda>pin. if pin = 16 \<or> pin = 13 then 1 else 0, '''')]" "{}"]
    by (simp add: poll_no_line [OF empty_not_key] initial_facts samples_16 pin_frames_Cons
        pin_fires_def pin_vector_16 pin_vector_13)
  then show ?thesis by (simp add: one_init_frame no_init_frame)
qed

section \<open>Claims about the command burst\<close>

text \<open>
  C2, at an input where the code departs from it. On the first poll the pins 16 and 13
  both rise. The event of pin 16 leaves the sequencer initialized; the event of pin 13 is
  handled in that state and still sends the initialization burst before its five frames,
  206 datagrams instead of 5.
\<close>

theorem second_pin_resends_init:
  "pin_event (16, 1) initial_state
     = Inr (initial_state\<lparr>vals := neutral, first_input := True, initialized := True,
              network := init_burst @ command_burst [1500, 2000, 1500, 1500]\<rparr>)
   \<and> pin_event (13, 1)
        (initial_state\<lparr>vals := neutral, first_input := True, initialized := True,
           network := init_burst @ command_burst [1500, 2000, 1500, 1500]\<rparr>)
     = Inr (initial_state\<lparr>vals := neutral, first_input := True, initialized := True,
              network := (init_burst @ command_burst [1500, 2000, 1500, 1500])
                         @ init_burst @ command_burst [2000, 1500, 1500, 1500]\<rparr>)
   \<and> length (init_burst @ command_burst [2000, 1500, 1500, 1500]) = 206"
proof -
  have z: "map_of (last_gpio_states initial_state) 16 = Some 0"
    "map_of (last_gpio_states initial_state) 13 = Some 0"
    by (simp_all add: initial_state_def gpio_mapping_def)
  have one: "pin_event (16, 1) initial_state
     = Inr (initial_state\<lparr>vals := neutral, first_input := True, initialized := True,
              network := init_burst @ command_burst [1500, 2000, 1500, 1500]\<rparr>)"
    using pin_event_eq [OF z(1) pin16_w w_vector] by (simp add: initial_facts)
  have two: "pin_event (13, 1)
        (initial_state\<lparr>vals := neutral, first_input := True, initialized := True,
           network := init_burst @ command_burst [1500, 2000, 1500, 1500]\<rparr>)
     = Inr (initial_state\<lparr>vals := neutral, first_input := True, initialized := True,
              network := (init_burst @ command_burst [1500, 2000, 1500, 1500])
                         @ init_burst @ command_burst [2000, 1500, 1500, 1500]\<rparr>)"
    using pin_event_eq [OF _ pin13_a a_vector,
        of "initial_state\<lparr>vals := neutral, first_input := True, initialized := True,
           network := init_burst @ command_burst [1500, 2000, 1500, 1500]\<rparr>"] z(2)
    by simp
  show ?thesis using one two by (simp add: length_init_burst)
qed

text \<open>
  C6. For the symbol \<open>w\<close>, from the line source in any state and from pin 16 on a rising
  edge, the third frame of the command burst (after the initialization burst when one is
  sent) has command 105 and a 32-byte payload which, read as 16 little-endian unsigned
  16-bit values, is 1500, 2000, 1500, 1500 followed by twelve times 1500.
\<close>

theorem w_third_frame:
  "(\<exists>st'. key_event ''w'' st = Inr st'
      \<and> length (network st') = length (network st) + (if initialized st then 0 else 201) + 5
      \<and> frame_command (snd (network st' ! (length (network st) + (if initialized st then 0 else 201) + 2))) = 105
      \<and> length (frame_payload (snd (network st' ! (length (network st) + (if initialized st then 0 else 201) + 2)))) = 32
      \<and> unpack_H (frame_payload (snd (network st' ! (length (network st) + (if initialized st then 0 else 201) + 2))))
          = [1500, 2000, 1500, 1500] @ replicate 12 1500)
   \<and> (map_of (last_gpio_states st) 16 = Some 0 \<longrightarrow>
       (\<exists>st'. pin_event (16, 1) st = Inr st'
          \<and> length (network st')
              = length (network st) + (if first_input st \<or> \<not> initialized st then 201 else 0) + 5
          \<and> frame_command (snd (network st' !
                (length (network st) + (if first_input st \<or> \<not> initialized st then 201 else 0) + 2))) = 105
          \<and> length (frame_payload (snd (network st' !
                (length (network st) + (if first_input st \<or> \<not> initialized st then 201 else 0) + 2)))) = 32
          \<and> unpack_H (frame_payload (snd (network st' !
                (length (network st) + (if first_input st \<or> \<not> initialized st then 201 else 0) + 2))))
              = [1500, 2000, 1500, 1500] @ replicate 12 1500))"
proof (intro conjI impI)
  show "\<exists>st'. key_event ''w'' st = Inr st'
      \<and> length (network st') = length (network st) + (if initialized st then 0 else 201) + 5
      \<and> frame_command (snd (network st' ! (length (network st) + (if initialized st then 0 else 201) + 2))) = 105
      \<and> length (frame_payload (snd (network st' ! (length (network st) + (if initialized st then 0 else 201) + 2)))) = 32
      \<and> unpack_H (frame_payload (snd (network st' ! (length (network st) + (if initialized st then 0 else 201) + 2))))
          = [1500, 2000, 1500, 1500] @ replicate 12 1500"
    using w_payload
    by (simp add: key_event_eq [OF w_vector] nth_append length_init_burst command_burst_third)
next
  assume "map_of (last_gpio_states st) 16 = Some 0"
  then show "\<exists>st'. pin_event (16, 1) st = Inr st'
          \<and> length (network st')
              = length (network st) + (if first_input st \<or> \<not> initialized st then 201 else 0) + 5
          \<and> frame_command (snd (network st' !
                (length (network st) + (if first_input st \<or> \<not> initialized st then 201 else 0) + 2))) = 105
          \<and> length (frame_payload (snd (network st' !
                (length (network st) + (if first_input st \<or> \<not> initialized st then 201 else 0) + 2)))) = 32
          \<and> unpack_H (frame_payload (snd (network st' !
                (length (network st) + (if first_input st \<or> \<not> initialized st then 201 else 0) + 2))))
              = [1500, 2000, 1500, 1500] @ replicate 12 1500"
    using w_payload
    by (simp add: pin_event_eq [OF _ pin16_w w_vector] nth_append length_init_burst command_burst_third)
qed

theorem w_third_frame_witness:
  "map_of (last_gpio_states initial_state) 16 = Some 0
   \<and> (\<exists>st'. pin_event (16, 1) initial_state = Inr st'
         \<and> length (network st') = 206
         \<and> unpack_H (frame_payload (snd (network st' ! 203))) = [1500, 2000, 1500, 1500] @ replicate 12 1500)"
proof -
  have z: "map_of (last_gpio_states initial_state) 16 = Some 0"
    by (simp add: initial_state_def gpio_mapping_def)
  have i: "network initial_state = []" "\<not> initialized initial_state"
    by (simp_all add: initial_state_def)
  show ?thesis using w_third_frame [of initial_state] z by (auto simp: i)
qed

text \<open>
  C8, at an input where the code departs from it. Pins 16 and 13 rise on the first poll,
  all pins are low on the second, pin 13 rises again on the third. Both events of pin 13
  are handled with the sequencer initialized; the first sends the initialization burst and
  the command burst of \<open>a\<close>, the second the command burst alone, so the two identical
  events do not put the same bytes on the network.
\<close>

theorem repeated_pin_event_differs:
  "network (fst (snd (main [(16, 0), (13, 1), (18, 2), (11, 3), (32, 4), (38, 5)] {}
                   [(\<lambda>pin. if pin = 16 \<or> pin = 13 then 1 else 0, ''''),
                    (\<lambda>pin. 0, ''''),
                    (\<lambda>pin. if pin = 13 then 1 else 0, '''')])))
     = (init_burst @ command_burst [1500, 2000, 1500, 1500])
       @ (init_burst @ command_burst [2000, 1500, 1500, 1500])
       @ command_burst [2000, 1500, 1500, 1500]"
  using main_running [OF example_set_up,
        of "[(\<lambda>pin. if pin = 16 \<or> pin = 13 then 1 else 0, ''''),
             (\<lambda>pin. 0, ''''),
             (\<lambda>pin. if pin = 13 then 1 else 0, '''')]" "{}"]
  by (simp add: poll_no_line [OF empty_not_key] initial_facts samples_16 pin_frames_Cons
        pin_fires_def pin_vector_16 pin_vector_13)

text \<open>
  C10. The table gives \<open>a\<close> and \<open>d\<close> the same vector 2000, 1500, 1500, 1500, and the
  two symbols have the same effect in every state: the same datagrams are sent and the same
  state is left, from the line source and, on a rising edge, from their pins 13 and 11.
\<close>

theorem a_and_d_identical:
  "map_of key_mapping ''a'' = Some [2000, 1500, 1500, 1500]
   \<and> map_of key_mapping ''d'' = Some [2000, 1500, 1500, 1500]
   \<and> key_event ''a'' st = key_event ''d'' st
   \<and> key_event ''a'' st
       = Inr (st\<lparr>vals := neutral, initialized := True,
                network := network st @ (if initialized st then [] else init_burst)
                             @ command_burst [2000, 1500, 1500, 1500]\<rparr>)
   \<and> (map_of (last_gpio_states st) 13 = Some 0 \<and> map_of (last_gpio_states st) 11 = Some 0
        \<longrightarrow> pin_event (13, 1) st = pin_event (11, 1) st)"
  by (simp add: a_vector d_vector key_event_eq [OF a_vector] key_event_eq [OF d_vector]
      pin_event_eq [OF _ pin13_a a_vector] pin_event_eq [OF _ pin11_d d_vector])

theorem a_and_d_identical_witness:
  "map_of (last_gpio_states initial_state) 13 = Some 0
   \<and> map_of (last_gpio_states initial_state) 11 = Some 0
   \<and> pin_event (13, 1) initial_state = pin_event (11, 1) initial_state"
proof -
  have z: "map_of (last_gpio_states initial_state) 13 = Some 0"
    "map_of (last_gpio_states initial_state) 11 = Some 0"
    by (simp_all add: initial_state_def gpio_mapping_def)
  show ?thesis using a_and_d_identical [of initial_state] z by blast
qed

section \<open>Claims about the pin source, the directions and the exit\<close>

text \<open>
  C5. After any polls that did not read \<open>q\<close>, a poll sends, for each pin in order, a
  burst exactly when the pin's previous sample (0 before the first poll) was 0 and its
  current sample is 1, and nothing for the other pins, whatever the line source yields on
  that poll; the burst of a line that is in the command table follows those of the pins.
  For pin 16 sampled 0, 0, 1, 1, 0, 1 with the other pins low and no line of input, the
  network has 0, 0, 0, 206, 206, 206 and 211 datagrams after 0 to 6 polls: events at the
  polls of index 2 and 5 only.
\<close>

theorem rising_edge_events:
  assumes "all_set_up mappings" "\<forall>t \<in> set ticks. snd t \<noteq> ''q''"
  shows "network (fst (snd (main mappings open_chips (ticks @ [(g, u)]))))
           = network (fst (snd (main mappings open_chips ticks)))
             @ concat (map (\<lambda>pin. if (if ticks = [] then 0 else fst (last ticks) pin) = 0 \<and> g pin = 1
                                   then (if initialized (fst (snd (main mappings open_chips ticks)))
                                         then [] else init_burst)
                                        @ command_burst (pin_vector pin)
                                   else [])
                           (map fst gpio_mapping))
             @ (case map_of key_mapping u of
                  None \<Rightarrow> []
                | Some v \<Rightarrow>
                    (if initialized (fst (snd (main mappings open_chips ticks)))
                        \<or> list_ex (\<lambda>pin. (if ticks = [] then 0 else fst (last ticks) pin) = 0 \<and> g pin = 1)
                             (map fst gpio_mapping)
                     then [] else init_burst)
                    @ command_burst v)
         \<and> map (\<lambda>n. length (network (fst (snd (main mappings open_chips
                   (take n (map (\<lambda>level. (\<lambda>pin. if pin = 16 then level else 0, ''''))
                                [0, 0, 1, 1, 0, 1])))))))
               [0, 1, 2, 3, 4, 5, 6]
             = [0, 0, 0, 206, 206, 206, 211]"
proof
  let ?st = "fold poll ticks initial_state"
  have before: "fst (snd (main mappings open_chips ticks)) = ?st"
    using main_running [OF assms, of open_chips] by simp
  have after: "fst (snd (main mappings open_chips (ticks @ [(g, u)]))) = poll (g, u) ?st"
    using assms by (rule main_last_poll)
  have fires: "pin_fires (last_gpio_states ?st) (pin, g pin)
                 = ((if ticks = [] then 0 else fst (last ticks) pin) = 0 \<and> g pin = 1)"
    if "pin \<in> set (map fst gpio_mapping)" for pin
  proof -
    have "map_of (last_gpio_states ?st) pin
            = Some (if ticks = [] then 0 else fst (last ticks) pin)"
      using previous_sample [of pin ticks] that by simp
    then show ?thesis by (simp add: pin_fires_def)
  qed
  have same: "map (\<lambda>pin. if pin_fires (last_gpio_states ?st) (pin, g pin)
                   then (if \<not> initialized ?st then init_burst else [])
                        @ command_burst (pin_vector pin)
                   else [])
            (map fst gpio_mapping)
        = map (\<lambda>pin. if (if ticks = [] then 0 else fst (last ticks) pin) = 0 \<and> g pin = 1
                       then (if initialized ?st then [] else init_burst)
                            @ command_burst (pin_vector pin)
                       else [])
              (map fst gpio_mapping)"
    by (rule map_cong [OF refl]) (simp add: fires)
  have any: "list_ex (pin_fires (last_gpio_states ?st)) (samples g)
        = list_ex (\<lambda>pin. (if ticks = [] then 0 else fst (last ticks) pin) = 0 \<and> g pin = 1)
            (map fst gpio_mapping)"
  proof -
    have "list_ex (\<lambda>pin. pin_fires (last_gpio_states ?st) (pin, g pin)) (map fst gpio_mapping)
        = list_ex (\<lambda>pin. (if ticks = [] then 0 else fst (last ticks) pin) = 0 \<and> g pin = 1)
            (map fst gpio_mapping)"
      unfolding list_ex_iff using fires by blast
    then show ?thesis by (simp only: list_ex_samples)
  qed
  show "network (fst (snd (main mappings open_chips (ticks @ [(g, u)]))))
           = network (fst (snd (main mappings open_chips ticks)))
             @ concat (map (\<lambda>pin. if (if ticks = [] then 0 else fst (last ticks) pin) = 0 \<and> g pin = 1
                                   then (if initialized (fst (snd (main mappings open_chips ticks)))
                                         then [] else init_burst)
                                        @ command_burst (pin_vector pin)
                                   else [])
                           (map fst gpio_mapping))
             @ (case map_of key_mapping u of
                  None \<Rightarrow> []
                | Some v \<Rightarrow>
                    (if initialized (fst (snd (main mappings open_chips ticks)))
                        \<or> list_ex (\<lambda>pin. (if ticks = [] then 0 else fst (last ticks) pin) = 0 \<and> g pin = 1)
                             (map fst gpio_mapping)
                     then [] else init_burst)
                    @ command_burst v)"
    unfolding before after network_poll pin_frames_samples same any by (rule refl)
next
  have "fst (snd (main mappings open_chips
              (take n (map (\<lambda>level. (\<lambda>pin. if pin = 16 then level else 0, '''')) [0, 0, 1, 1, 0, 1]))))
        = fold poll (take n (map (\<lambda>level. (\<lambda>pin. if pin = 16 then level else 0, '''')) [0, 0, 1, 1, 0, 1]))
            initial_state" for n
  proof -
    have "\<forall>t \<in> set (take n (map (\<lambda>level. (\<lambda>pin. if pin = (16::int) then level else (0::int), ''''))
                                  [0, 0, 1, 1, 0, 1])). snd t \<noteq> ''q''"
      by (auto dest!: in_set_takeD)
    then show ?thesis using main_running [OF assms(1), of _ open_chips] by simp
  qed
  then show "map (\<lambda>n. length (network (fst (snd (main mappings open_chips
                   (take n (map (\<lambda>level. (\<lambda>pin. if pin = 16 then level else 0, ''''))
                                [0, 0, 1, 1, 0, 1])))))))
               [0, 1, 2, 3, 4, 5, 6]
             = [0, 0, 0, 206, 206, 206, 211]"
    using sequence_lengths by simp
qed

theorem rising_edge_events_witness:
  "all_set_up [(16, 0), (13, 1), (18, 2), (11, 3), (32, 4), (38, 5)]
   \<and> snd (\<lambda>pin. 0 :: int, '''') \<noteq> ''q''
   \<and> network (fst (snd (main [(16, 0), (13, 1), (18, 2), (11, 3), (32, 4), (38, 5)] {}
                  ([(\<lambda>pin. 0, '''')] @ [(\<lambda>pin. if pin = 16 then 1 else 0, ''s'')]))))
       = init_burst @ command_burst [1500, 2000, 1500, 1500] @ command_burst [1500, 1000, 1500, 1500]"
proof -
  have q: "\<forall>t \<in> set [(\<lambda>pin. 0 :: int, '''')]. snd t \<noteq> ''q''" by simp
  have s: "map_of key_mapping ''s'' = Some [1500, 1000, 1500, 1500]"
    by (simp add: key_mapping_def)
  have "network (fst (snd (main [(16, 0), (13, 1), (18, 2), (11, 3), (32, 4), (38, 5)] {}
                  ([(\<lambda>pin. 0, '''')] @ [(\<lambda>pin. if pin = 16 then 1 else 0, ''s'')]))))
       = init_burst @ command_burst [1500, 2000, 1500, 1500] @ command_burst [1500, 1000, 1500, 1500]"
    using rising_edge_events [OF example_set_up q, of "{}" "\<lambda>pin. if pin = 16 then 1 else 0" "''s''"]
    unfolding example_idle_run s
    by (simp add: initial_state_def gpio_mapping_def pin_vector_16)
  then show ?thesis using example_set_up by simp
qed

text \<open>
  C9. In every run, every datagram sent carries command 182 or 101 with direction
  \<open>>\<close>, or command 105 with direction \<open><\<close>.
\<close>

theorem direction_tags:
  "\<forall>d \<in> set (network (fst (snd (main mappings open_chips ticks)))). direction_ok d"
proof (rule main_induct)
  show "\<forall>d \<in> set (network initial_state). direction_ok d"
    by (simp add: initial_state_def)
qed (rule poll_direction)

theorem direction_tags_witness:
  "to_target (msp_frame CHR ''<'' 105 (le16 (control_vector [1500, 2000, 1500, 1500])))
     \<in> set (network (fst (snd (main [(16, 0), (13, 1), (18, 2), (11, 3), (32, 4), (38, 5)] {}
                                    [(\<lambda>pin. 0, ''w'')]))))
   \<and> direction_ok (to_target (msp_frame CHR ''<'' 105 (le16 (control_vector [1500, 2000, 1500, 1500]))))"
proof -
  have m: "to_target (msp_frame CHR ''<'' 105 (le16 (control_vector [1500, 2000, 1500, 1500])))
     \<in> set (network (fst (snd (main [(16, 0), (13, 1), (18, 2), (11, 3), (32, 4), (38, 5)] {}
                                    [(\<lambda>pin. 0, ''w'')]))))"
    unfolding example_run_w by (simp add: command_burst_def)
  show ?thesis
    using m direction_tags [of "[(16, 0), (13, 1), (18, 2), (11, 3), (32, 4), (38, 5)]" "{}"
        "[(\<lambda>pin. 0, ''w'')]"]
    by blast
qed

text \<open>
  C7. When the line source yields \<open>q\<close> on a poll (the polls before it did not), the run
  ends through \<open>break\<close> whatever polls would follow; its final state is the state after
  the pin part of that poll, so nothing is sent once \<open>q\<close> is read; the reader's dictionary is
  empty and none of its chips is open any more.
\<close>

theorem quit_ends_the_loop:
  assumes "all_set_up mappings" "\<forall>t \<in> set ticks. snd t \<noteq> ''q''"
  shows "main mappings open_chips (ticks @ (g, ''q'') # later)
           = (Exited,
              fst (snd (main mappings open_chips (ticks @ [(g, '''')]))),
              \<lparr>pin_numbers = map fst gpio_mapping, pin_mappings = []\<rparr>,
              open_chips - snd ` set mappings)"
proof -
  have "\<forall>t \<in> set (ticks @ [(g, '''')]). snd t \<noteq> ''q''" using assms(2) by simp
  then have "fst (snd (main mappings open_chips (ticks @ [(g, '''')])))
               = poll (g, '''') (fold poll ticks initial_state)"
    using main_running [OF assms(1), of "ticks @ [(g, '''')]" open_chips] by simp
  then show ?thesis
    using main_loop_quit [OF assms(1) keys_initial assms(2), of g later]
    by (simp add: main_def cleanup_eq poll_quit_same GPIOReader_init_def)
qed

theorem quit_ends_the_loop_witness:
  "all_set_up [(16, 0), (13, 1), (18, 2), (11, 3), (32, 4), (38, 5)]
   \<and> main [(16, 0), (13, 1), (18, 2), (11, 3), (32, 4), (38, 5)] {0, 1, 2, 3, 4, 5, 9}
        ([] @ (\<lambda>pin. 0, ''q'') # [(\<lambda>pin. 0, ''w'')])
       = (Exited, initial_state, \<lparr>pin_numbers = [16, 13, 18, 11, 32, 38], pin_mappings = []\<rparr>, {9})"
proof -
  have q: "\<forall>t \<in> set ([] :: tick list). snd t \<noteq> ''q''" by simp
  have s: "{0, 1, 2, 3, 4, 5, 9} - snd ` set [(16 :: int, 0), (13, 1), (18, 2), (11, 3), (32, 4), (38, 5)]
             = {9 :: nat}"
    by auto
  have p: "map fst gpio_mapping = [16, 13, 18, 11, 32, 38]" by (simp add: gpio_mapping_def)
  have "main [(16, 0), (13, 1), (18, 2), (11, 3), (32, 4), (38, 5)] {0, 1, 2, 3, 4, 5, 9}
        ([] @ (\<lambda>pin. 0, ''q'') # [(\<lambda>pin. 0, ''w'')])
       = (Exited, initial_state, \<lparr>pin_numbers = [16, 13, 18, 11, 32, 38], pin_mappings = []\<rparr>, {9})"
    using quit_ends_the_loop [OF example_set_up q, of "{0, 1, 2, 3, 4, 5, 9}" "\<lambda>pin. 0" "[(\<lambda>pin. 0, ''w'')]"]
      main_running [OF example_set_up, of "[(\<lambda>pin. 0, '''')]" "{0, 1, 2, 3, 4, 5, 9}"]
    unfolding s p
    by (simp add: poll_idle_initial)
  then show ?thesis using example_set_up q by blast
qed

end
